theory Spec2Isabelle
  imports Main "HOL-Library.Char_ord" "HOL-Library.List_Lexorder" "HOL-Library.Product_Lexorder"
begin

section \<open>Strings and paths\<close>

text \<open>
  Python \<^verbatim>\<open>str\<close> values are modelled as \<^typ>\<open>string\<close>, a character standing for the code
  point of the same number (so the model covers the code points below 256). The
  library imports give characters the order of their code points and strings, lists
  and pairs the lexicographic order, which is the order \<^verbatim>\<open>sorted\<close> uses.
\<close>

text \<open>\<^verbatim>\<open>s.endswith(suf)\<close>.\<close>

definition endswith :: "string \<Rightarrow> string \<Rightarrow> bool" where
  "endswith s suf \<longleftrightarrow>
     length suf \<le> length s \<and> drop (length s - length suf) s = suf"

text \<open>\<^verbatim>\<open>s.rstrip("\n")\<close>: every trailing line feed is removed, nothing else.\<close>

definition rstrip_nl :: "string \<Rightarrow> string" where
  "rstrip_nl s = rev (dropWhile (\<lambda>c. c = CHR 0x0A) (rev s))"

text \<open>\<^verbatim>\<open>s.split("/")\<close>: the pieces between slashes, empty pieces included.\<close>

fun split_sep :: "string \<Rightarrow> string list" where
  "split_sep [] = [[]]"
| "split_sep (c # cs) =
     (if c = CHR ''/'' then [] # split_sep cs
      else (case split_sep cs of
              [] \<Rightarrow> [[c]]
            | p # ps \<Rightarrow> (c # p) # ps))"

text \<open>
  \<^verbatim>\<open>Path(s).name\<close> on a POSIX system: pathlib splits the text at slashes, drops
  the empty components and the components \<^verbatim>\<open>.\<close>, and \<^verbatim>\<open>name\<close> is the last
  component left, or the empty string when none is left.
\<close>

definition path_parts :: "string \<Rightarrow> string list" where
  "path_parts s = filter (\<lambda>x. x \<noteq> [] \<and> x \<noteq> ''.'') (split_sep s)"

definition path_name :: "string \<Rightarrow> string" where
  "path_name s = (case path_parts s of [] \<Rightarrow> [] | x # xs \<Rightarrow> last (x # xs))"

section \<open>The directive pattern\<close>

text \<open>
  \<^verbatim>\<open>READFILE_PATTERN = re.compile(r'{{<\s*readfile\s+file\s*=\s*"([^"]+)"\s*>}}')\<close>

  \<^verbatim>\<open>\s\<close> in a \<^verbatim>\<open>str\<close> pattern is Unicode white space; below 256 these are the
  code points 9 to 13, 28 to 32, 133 and 160.
\<close>

definition is_space :: "char \<Rightarrow> bool" where
  "is_space c \<longleftrightarrow> c \<in> set [CHR 0x09, CHR 0x0A, CHR 0x0B, CHR 0x0C, CHR 0x0D,
                              CHR 0x1C, CHR 0x1D, CHR 0x1E, CHR 0x1F, CHR 0x20,
                              CHR 0x85, CHR 0xA0]"

text \<open>A literal piece of the pattern: the rest of the text after it, if it is there.\<close>

fun lit :: "string \<Rightarrow> string \<Rightarrow> string option" where
  "lit [] s = Some s"
| "lit (p # ps) [] = None"
| "lit (p # ps) (c # cs) = (if p = c then lit ps cs else None)"

text \<open>\<^verbatim>\<open>\s*\<close> and \<^verbatim>\<open>\s+\<close>, greedy.\<close>

definition spaces0 :: "string \<Rightarrow> string option" where
  "spaces0 s = Some (dropWhile is_space s)"

definition spaces1 :: "string \<Rightarrow> string option" where
  "spaces1 s = (case s of [] \<Rightarrow> None
                | c # cs \<Rightarrow> if is_space c then Some (dropWhile is_space cs) else None)"

text \<open>\<^verbatim>\<open>"([^"]+)"\<close>: the group and the rest of the text after the closing quote.\<close>

definition quoted :: "string \<Rightarrow> (string \<times> string) option" where
  "quoted s =
     (case lit ''\"'' s of
        None \<Rightarrow> None
      | Some s1 \<Rightarrow>
          (let g = takeWhile (\<lambda>c. c \<noteq> CHR ''\"'') s1 in
           if g = [] then None
           else (case lit ''\"'' (dropWhile (\<lambda>c. c \<noteq> CHR ''\"'') s1) of
                   None \<Rightarrow> None
                 | Some s2 \<Rightarrow> Some (g, s2))))"

text \<open>
  A match of the whole pattern at the start of the text: group 1 and the text after the
  match. Each greedy piece is followed by a character it cannot itself consume (no
  literal of the pattern starts with white space, and the group cannot contain the
  quote that closes it), so giving characters back never yields another match and the
  match at a position is the one computed here.
\<close>

definition match_here :: "string \<Rightarrow> (string \<times> string) option" where
  "match_here s =
     Option.bind (lit ''{{<'' s) (\<lambda>s.
     Option.bind (spaces0 s) (\<lambda>s.
     Option.bind (lit ''readfile'' s) (\<lambda>s.
     Option.bind (spaces1 s) (\<lambda>s.
     Option.bind (lit ''file'' s) (\<lambda>s.
     Option.bind (spaces0 s) (\<lambda>s.
     Option.bind (lit ''='' s) (\<lambda>s.
     Option.bind (spaces0 s) (\<lambda>s.
     Option.bind (quoted s) (\<lambda>(g, s).
     Option.bind (spaces0 s) (\<lambda>s.
     Option.bind (lit ''>}}'' s) (\<lambda>s. Some (g, s))))))))))))"

text \<open>\<^verbatim>\<open>m.group(0)\<close> of a match at the start of \<open>s\<close> that leaves \<open>rest\<close>.\<close>

definition group0 :: "string \<Rightarrow> string \<Rightarrow> string" where
  "group0 s rest = take (length s - length rest) s"

lemma lit_suffix: "lit p s = Some r \<Longrightarrow> \<exists>m. s = m @ r \<and> length m = length p"
proof (induction p s rule: lit.induct)
  case (1 s)
  then show ?case by simp
next
  case (2 p ps)
  then show ?case by simp
next
  case (3 p ps c cs)
  then obtain m where "cs = m @ r" "length m = length ps"
    by (auto split: if_splits)
  then have "c # cs = (c # m) @ r \<and> length (c # m) = length (p # ps)" by simp
  then show ?case by blast
qed

lemma spaces0_suffix: "spaces0 s = Some r \<Longrightarrow> \<exists>m. s = m @ r"
  unfolding spaces0_def by (metis option.inject takeWhile_dropWhile_id)

lemma spaces1_suffix: "spaces1 s = Some r \<Longrightarrow> \<exists>m. s = m @ r"
  unfolding spaces1_def
  by (auto split: list.splits if_splits)
     (metis append_Cons takeWhile_dropWhile_id)

lemma quoted_suffix: "quoted s = Some (g, r) \<Longrightarrow> \<exists>m. s = m @ r \<and> m \<noteq> []"
proof -
  assume q: "quoted s = Some (g, r)"
  then obtain s1 where s1: "lit ''\"'' s = Some s1"
    by (auto simp: quoted_def split: option.splits)
  with q have r: "lit ''\"'' (dropWhile (\<lambda>c. c \<noteq> CHR ''\"'') s1) = Some r"
    by (auto simp: quoted_def Let_def split: option.splits if_splits)
  from lit_suffix [OF s1] obtain m1 where m1: "s = m1 @ s1" "length m1 = 1" by auto
  from lit_suffix [OF r] obtain m2 where
    m2: "dropWhile (\<lambda>c. c \<noteq> CHR ''\"'') s1 = m2 @ r" by auto
  have "s1 = takeWhile (\<lambda>c. c \<noteq> CHR ''\"'') s1 @ m2 @ r"
    using m2 by (metis takeWhile_dropWhile_id)
  with m1 have "s = (m1 @ takeWhile (\<lambda>c. c \<noteq> CHR ''\"'') s1 @ m2) @ r" by simp
  moreover from m1 have "m1 @ takeWhile (\<lambda>c. c \<noteq> CHR ''\"'') s1 @ m2 \<noteq> []" by auto
  ultimately show ?thesis by blast
qed

lemma match_here_steps:
  "match_here s = Some (g, r) \<longleftrightarrow>
     (\<exists>s1 s2 s3 s4 s5 s6 s7 s8 s9 s10.
        lit ''{{<'' s = Some s1 \<and> spaces0 s1 = Some s2 \<and> lit ''readfile'' s2 = Some s3 \<and>
        spaces1 s3 = Some s4 \<and> lit ''file'' s4 = Some s5 \<and> spaces0 s5 = Some s6 \<and>
        lit ''='' s6 = Some s7 \<and> spaces0 s7 = Some s8 \<and> quoted s8 = Some (g, s9) \<and>
        spaces0 s9 = Some s10 \<and> lit ''>}}'' s10 = Some r)"
  unfolding match_here_def
  by (simp only: bind_eq_Some_conv split_paired_Ex prod.case option.inject prod.inject)
     blast

lemma match_here_suffix:
  assumes "match_here s = Some (g, r)"
  shows "\<exists>m. s = m @ r \<and> m \<noteq> []"
proof -
  from assms obtain s1 s2 s3 s4 s5 s6 s7 s8 s9 s10 where
    steps: "lit ''{{<'' s = Some s1" "spaces0 s1 = Some s2" "lit ''readfile'' s2 = Some s3"
      "spaces1 s3 = Some s4" "lit ''file'' s4 = Some s5" "spaces0 s5 = Some s6"
      "lit ''='' s6 = Some s7" "spaces0 s7 = Some s8" "quoted s8 = Some (g, s9)"
      "spaces0 s9 = Some s10" "lit ''>}}'' s10 = Some r"
    unfolding match_here_steps by blast
  from lit_suffix [OF steps(1)] obtain m1 where m1: "s = m1 @ s1" "length m1 = 3" by auto
  from spaces0_suffix [OF steps(2)] obtain m2 where m2: "s1 = m2 @ s2" by blast
  from lit_suffix [OF steps(3)] obtain m3 where m3: "s2 = m3 @ s3" by blast
  from spaces1_suffix [OF steps(4)] obtain m4 where m4: "s3 = m4 @ s4" by blast
  from lit_suffix [OF steps(5)] obtain m5 where m5: "s4 = m5 @ s5" by blast
  from spaces0_suffix [OF steps(6)] obtain m6 where m6: "s5 = m6 @ s6" by blast
  from lit_suffix [OF steps(7)] obtain m7 where m7: "s6 = m7 @ s7" by blast
  from spaces0_suffix [OF steps(8)] obtain m8 where m8: "s7 = m8 @ s8" by blast
  from quoted_suffix [OF steps(9)] obtain m9 where m9: "s8 = m9 @ s9" by blast
  from spaces0_suffix [OF steps(10)] obtain m10 where m10: "s9 = m10 @ s10" by blast
  from lit_suffix [OF steps(11)] obtain m11 where m11: "s10 = m11 @ r" by blast
  have "s = (m1 @ m2 @ m3 @ m4 @ m5 @ m6 @ m7 @ m8 @ m9 @ m10 @ m11) @ r"
    unfolding m1(1) m2 m3 m4 m5 m6 m7 m8 m9 m10 m11 by simp
  moreover from m1(2) have "m1 @ m2 @ m3 @ m4 @ m5 @ m6 @ m7 @ m8 @ m9 @ m10 @ m11 \<noteq> []"
    by auto
  ultimately show ?thesis by blast
qed

lemma match_here_shorter: "match_here s = Some (g, r) \<Longrightarrow> length r < length s"
  using match_here_suffix [of s g r] by auto

text \<open>
  \<^verbatim>\<open>[m.group(1) for m in READFILE_PATTERN.finditer(text)]\<close>: the search runs from left
  to right; after a match it goes on behind the match, elsewhere one character further.
\<close>

function finditer :: "string \<Rightarrow> string list" where
  "finditer [] = []"
| "finditer (c # cs) =
     (case match_here (c # cs) of
        Some (g, rest) \<Rightarrow> g # finditer rest
      | None \<Rightarrow> finditer cs)"
  by pat_completeness auto
termination
  by (relation "measure length") (auto dest: match_here_shorter)

text \<open>
  \<^verbatim>\<open>READFILE_PATTERN.sub(repl, text)\<close> with a function \<open>repl\<close>: the same search; the
  text of a match is replaced by what \<open>repl\<close> returns for it (taken as it is), the
  text between matches is kept. A match is given to \<open>repl\<close> as the pair of its groups
  0 and 1. The state \<open>st\<close> is what \<open>repl\<close> may assign to outside itself.
\<close>

function re_sub ::
  "('s \<Rightarrow> string \<times> string \<Rightarrow> string \<times> 's) \<Rightarrow> 's \<Rightarrow> string \<Rightarrow> string \<times> 's" where
  "re_sub repl st [] = ([], st)"
| "re_sub repl st (c # cs) =
     (case match_here (c # cs) of
        Some (g, rest) \<Rightarrow>
          (case repl st (group0 (c # cs) rest, g) of
             (out, st1) \<Rightarrow>
               (case re_sub repl st1 rest of (more, st2) \<Rightarrow> (out @ more, st2)))
      | None \<Rightarrow> (case re_sub repl st cs of (more, st1) \<Rightarrow> (c # more, st1)))"
  by pat_completeness auto
termination
  by (relation "measure (\<lambda>(repl, st, s). length s)") (auto dest: match_here_shorter)

section \<open>The file system\<close>

text \<open>
  Files are addressed by their path text: the keys of a usage map come from
  \<^verbatim>\<open>as_posix()\<close>, and \<^verbatim>\<open>Path(key)\<close> names the same file again. A file either has a
  text or cannot be read (\<^verbatim>\<open>read_text\<close> raises, as it does on a path that is not
  there); \<^verbatim>\<open>write_text\<close> and \<^verbatim>\<open>unlink\<close> raise \<^verbatim>\<open>OSError\<close> on the paths the system
  refuses, and leave the files as they were then.
\<close>

datatype io_error = OSError | UnicodeDecodeError

datatype node = Text string | Broken io_error

record fs =
  files :: "string \<rightharpoonup> node"
  no_write :: "string set"
  no_unlink :: "string set"

definition path_exists :: "fs \<Rightarrow> string \<Rightarrow> bool" where
  "path_exists d p \<longleftrightarrow> files d p \<noteq> None"

definition read_text :: "fs \<Rightarrow> string \<Rightarrow> io_error + string" where
  "read_text d p =
     (case files d p of
        None \<Rightarrow> Inl OSError
      | Some (Broken e) \<Rightarrow> Inl e
      | Some (Text t) \<Rightarrow> Inr t)"

definition write_text :: "fs \<Rightarrow> string \<Rightarrow> string \<Rightarrow> io_error + fs" where
  "write_text d p t =
     (if p \<in> no_write d then Inl OSError
      else Inr (d\<lparr>files := (files d)(p \<mapsto> Text t)\<rparr>))"

definition unlink :: "fs \<Rightarrow> string \<Rightarrow> io_error + fs" where
  "unlink d p =
     (if files d p = None \<or> p \<in> no_unlink d then Inl OSError
      else Inr (d\<lparr>files := (files d)(p := None)\<rparr>))"

section \<open>The scanner\<close>

text \<open>
  A \<^verbatim>\<open>dict[str, list[str]]\<close> is an association list in insertion order; a dict holds
  a key once.
\<close>

type_synonym usage_map = "(string \<times> string list) list"

text \<open>\<^verbatim>\<open>reusable_files[f.as_posix()] = f\<close>, keys only: a key already there keeps its place.\<close>

definition add_key :: "string list \<Rightarrow> string \<Rightarrow> string list" where
  "add_key ks k = (if k \<in> set ks then ks else ks @ [k])"

text \<open>\<^verbatim>\<open>usages.setdefault(key, [])\<close>.\<close>

fun setdefault :: "usage_map \<Rightarrow> string \<Rightarrow> string list \<Rightarrow> usage_map" where
  "setdefault [] key dflt = [(key, dflt)]"
| "setdefault ((k, v) # m) key dflt =
     (if k = key then (k, v) # m else (k, v) # setdefault m key dflt)"

text \<open>
  \<^verbatim>\<open>usages[matched_key].append(x)\<close> on a \<^verbatim>\<open>defaultdict(list)\<close>: a key that is not
  there is added with the empty list first.
\<close>

fun append_use :: "usage_map \<Rightarrow> string \<Rightarrow> string \<Rightarrow> usage_map" where
  "append_use [] key x = [(key, [x])]"
| "append_use ((k, v) # m) key x =
     (if k = key then (k, v @ [x]) # m else (k, v) # append_use m key x)"

text \<open>
  The loop over \<^verbatim>\<open>reusable_files\<close> for one reference: the first key that passes
  one of the two tests of the loop body ends the loop.
\<close>

fun resolve :: "string list \<Rightarrow> string \<Rightarrow> string option" where
  "resolve [] ref = None"
| "resolve (key # keys) ref =
     (if endswith key ref \<or> endswith ref key then Some key
      else if path_name ref = path_name key then Some key
      else resolve keys ref)"

text \<open>
  The result of a scan: the two values \<^verbatim>\<open>find_usages\<close> returns, and with them the
  content files it has reported on \<^verbatim>\<open>stderr\<close> as unreadable.
\<close>

record scan =
  usages :: usage_map
  missing :: "string set"
  warnings :: "string list"

definition scan_ref :: "string list \<Rightarrow> string \<Rightarrow> scan \<Rightarrow> string \<Rightarrow> scan" where
  "scan_ref keys content_file st ref =
     (case resolve keys ref of
        Some matched_key \<Rightarrow>
          st\<lparr>usages := append_use (usages st) matched_key content_file\<rparr>
      | None \<Rightarrow> st\<lparr>missing := insert ref (missing st)\<rparr>)"

definition scan_file :: "fs \<Rightarrow> string list \<Rightarrow> scan \<Rightarrow> string \<Rightarrow> scan" where
  "scan_file d keys st content_file =
     (case read_text d content_file of
        Inl exc \<Rightarrow> st\<lparr>warnings := warnings st @ [content_file]\<rparr>
      | Inr text \<Rightarrow> foldl (scan_ref keys content_file) st (finditer text))"

text \<open>
  \<^verbatim>\<open>find_usages\<close>. The two \<^verbatim>\<open>rglob("*.md")\<close> enumerations are arguments, in the
  order the file system yields them, each path in its \<^verbatim>\<open>as_posix()\<close> form.
\<close>

definition reusable_files :: "string list \<Rightarrow> string list" where
  "reusable_files reusable_listing = foldl add_key [] reusable_listing"

definition find_usages :: "fs \<Rightarrow> string list \<Rightarrow> string list \<Rightarrow> scan" where
  "find_usages d reusable_listing content_listing =
     (let keys = reusable_files reusable_listing;
          seeded = foldl (\<lambda>u key. setdefault u key []) [] keys
      in foldl (scan_file d keys)
           \<lparr>usages = seeded, missing = {}, warnings = []\<rparr> content_listing)"

section \<open>The inliner\<close>

text \<open>
  The closure \<^verbatim>\<open>replacer\<close>; the flag \<^verbatim>\<open>replaced\<close> it assigns to is passed in and
  returned.
\<close>

definition replacer :: "string \<Rightarrow> string \<Rightarrow> bool \<Rightarrow> string \<times> string \<Rightarrow> string \<times> bool" where
  "replacer key reusable_text replaced m =
     (case m of (m0, ref) \<Rightarrow>
        if endswith key ref \<or> endswith ref key \<or> path_name ref = path_name key
        then (rstrip_nl reusable_text, True)
        else (m0, replaced))"

text \<open>How one pass of a loop over candidates ended.\<close>

datatype outcome =
    Skip_not_found
  | Error_read
  | Skip_no_shortcode
  | Inlined
  | Error_file_op
  | Deleted
  | Uncaught_IndexError

text \<open>The body of the loop of \<^verbatim>\<open>inline_singles\<close> for one candidate.\<close>

definition inline_candidate :: "fs \<Rightarrow> string \<Rightarrow> string \<Rightarrow> fs \<times> outcome" where
  "inline_candidate d reusable_key content_file =
     (if \<not> path_exists d reusable_key then (d, Skip_not_found)
      else
        (case read_text d reusable_key of
           Inl exc \<Rightarrow> (d, Error_read)
         | Inr reusable_text \<Rightarrow>
             (case read_text d content_file of
                Inl exc \<Rightarrow> (d, Error_read)
              | Inr content_text \<Rightarrow>
                  (case re_sub (replacer reusable_key reusable_text) False content_text of
                     (new_content, replaced) \<Rightarrow>
                       if \<not> replaced then (d, Skip_no_shortcode)
                       else
                         (case write_text d content_file new_content of
                            Inl exc \<Rightarrow> (d, Error_file_op)
                          | Inr d1 \<Rightarrow>
                              (case unlink d1 reusable_key of
                                 Inl exc \<Rightarrow> (d1, Error_file_op)
                               | Inr d2 \<Rightarrow> (d2, Inlined)))))))"

text \<open>
  The loop. \<^verbatim>\<open>locations[0]\<close> raises \<^verbatim>\<open>IndexError\<close> on an empty list, which nothing
  catches: the loop ends there.
\<close>

fun inline_loop :: "fs \<Rightarrow> usage_map \<Rightarrow> fs \<times> (string \<times> outcome) list" where
  "inline_loop d [] = (d, [])"
| "inline_loop d ((reusable_key, locations) # rest) =
     (case locations of
        [] \<Rightarrow> (d, [(reusable_key, Uncaught_IndexError)])
      | content_file # _ \<Rightarrow>
          (case inline_candidate d reusable_key content_file of
             (d1, r) \<Rightarrow>
               (case inline_loop d1 rest of
                  (d2, rs) \<Rightarrow> (d2, (reusable_key, r) # rs))))"

text \<open>
  \<^verbatim>\<open>inline_singles\<close>: the file system after it, and for each pass of the loop the
  key and how the pass ended.
\<close>

definition inline_singles :: "fs \<Rightarrow> usage_map \<Rightarrow> fs \<times> (string \<times> outcome) list" where
  "inline_singles d usages_map =
     (let candidates = filter (\<lambda>(k, v). length v = 1) usages_map
      in if candidates = [] then (d, []) else inline_loop d (sort candidates))"

section \<open>The pruner\<close>

definition delete_one :: "fs \<Rightarrow> string \<Rightarrow> fs \<times> outcome" where
  "delete_one d reusable_key =
     (if \<not> path_exists d reusable_key then (d, Skip_not_found)
      else
        (case unlink d reusable_key of
           Inl exc \<Rightarrow> (d, Error_file_op)
         | Inr d1 \<Rightarrow> (d1, Deleted)))"

fun delete_loop :: "fs \<Rightarrow> string list \<Rightarrow> fs \<times> (string \<times> outcome) list" where
  "delete_loop d [] = (d, [])"
| "delete_loop d (reusable_key # rest) =
     (case delete_one d reusable_key of
        (d1, r) \<Rightarrow>
          (case delete_loop d1 rest of
             (d2, rs) \<Rightarrow> (d2, (reusable_key, r) # rs)))"

definition delete_unused :: "fs \<Rightarrow> usage_map \<Rightarrow> fs \<times> (string \<times> outcome) list" where
  "delete_unused d usages_map =
     (let unused = filter (\<lambda>(k, v). length v = 0) usages_map
      in if unused = [] then (d, []) else delete_loop d (sort (map fst unused)))"

section \<open>Notions used in the statements\<close>

text \<open>
  A key matches a reference when one of the three tests of the source holds: the key
  ends with the reference, the reference ends with the key, or both have the same
  file name.
\<close>

definition matches :: "string \<Rightarrow> string \<Rightarrow> bool" where
  "matches key ref \<longleftrightarrow>
     endswith key ref \<or> endswith ref key \<or> path_name ref = path_name key"

text \<open>
  The directive occurrences of a scan, in the order the scan meets them: the content
  file and the reference of each, for the content files that can be read.
\<close>

definition occurrences :: "fs \<Rightarrow> string list \<Rightarrow> (string \<times> string) list" where
  "occurrences d content_listing =
     concat (map (\<lambda>p. case read_text d p of
                          Inl exc \<Rightarrow> []
                        | Inr text \<Rightarrow> map (Pair p) (finditer text)) content_listing)"

text \<open>The number of entries of all usage sequences together.\<close>

definition total_uses :: "usage_map \<Rightarrow> nat" where
  "total_uses u = sum_list (map (\<lambda>(k, v). length v) u)"

text \<open>
  The search of the pattern cuts a text into the directives it finds, each with its
  whole text and its reference, and the single characters between them.
\<close>

datatype token = Lit char | Directive string string

function tokens :: "string \<Rightarrow> token list" where
  "tokens [] = []"
| "tokens (c # cs) =
     (case match_here (c # cs) of
        Some (g, rest) \<Rightarrow> Directive (group0 (c # cs) rest) g # tokens rest
      | None \<Rightarrow> Lit c # tokens cs)"
  by pat_completeness auto
termination
  by (relation "measure length") (auto dest: match_here_shorter)

fun token_text :: "token \<Rightarrow> string" where
  "token_text (Lit c) = [c]"
| "token_text (Directive m0 ref) = m0"

text \<open>
  The directive as it is written in a content file: the opening token, the word
  \<^verbatim>\<open>readfile\<close>, the parameter \<^verbatim>\<open>file\<close> with its quoted value, the closing token, and
  the white space \<open>w1\<close> to \<open>w5\<close> between them.
\<close>

definition directive ::
  "string \<Rightarrow> string \<Rightarrow> string \<Rightarrow> string \<Rightarrow> string \<Rightarrow> string \<Rightarrow> string" where
  "directive w1 w2 w3 w4 ref w5 =
     ''{{<'' @ w1 @ ''readfile'' @ w2 @ ''file'' @ w3 @ ''='' @ w4 @
     ''\"'' @ ref @ ''\"'' @ w5 @ ''>}}''"

section \<open>Example data\<close>

text \<open>The helper \<^verbatim>\<open>shortcode\<close> of the test suite.\<close>

definition shortcode :: "string \<Rightarrow> string" where
  "shortcode ref = ''{{< readfile file=\"'' @ ref @ ''\" >}}''"

text \<open>A file system with nothing refused, holding the given files.\<close>

definition disk :: "(string \<times> node) list \<Rightarrow> fs" where
  "disk fl = \<lparr>files = map_of fl, no_write = {}, no_unlink = {}\<rparr>"

lemmas eval_simps =
  shortcode_def disk_def match_here_def spaces0_def spaces1_def quoted_def is_space_def
  read_text_def occurrences_def endswith_def path_name_def path_parts_def
  find_usages_def reusable_files_def add_key_def scan_file_def scan_ref_def

lemmas inline_simps =
  inline_candidate_def path_exists_def write_text_def unlink_def replacer_def group0_def
  rstrip_nl_def matches_def

section \<open>Dictionaries and resolution\<close>

lemma endswith_iff: "endswith s suf \<longleftrightarrow> (\<exists>pre. s = pre @ suf)"
proof
  assume "endswith s suf"
  then have "s = take (length s - length suf) s @ suf"
    unfolding endswith_def by (metis append_take_drop_id)
  then show "\<exists>pre. s = pre @ suf" ..
next
  assume "\<exists>pre. s = pre @ suf"
  then show "endswith s suf" unfolding endswith_def by auto
qed

lemma resolve_find: "resolve keys ref = find (\<lambda>key. matches key ref) keys"
  by (induction keys) (auto simp: matches_def)

lemma resolve_in_keys: "resolve keys ref = Some k \<Longrightarrow> k \<in> set keys"
  by (induction keys) (auto split: if_splits)

lemma add_key_set: "set (foldl add_key ks rl) = set ks \<union> set rl"
  by (induction rl arbitrary: ks) (auto simp: add_key_def)

lemma add_key_distinct: "distinct ks \<Longrightarrow> distinct (foldl add_key ks rl)"
  by (induction rl arbitrary: ks) (auto simp: add_key_def)

lemma reusable_files_set: "set (reusable_files rl) = set rl"
  by (simp add: reusable_files_def add_key_set)

lemma reusable_files_distinct: "distinct (reusable_files rl)"
  by (simp add: reusable_files_def add_key_distinct)

lemma setdefault_keys:
  "map fst (setdefault u k dflt) = (if k \<in> fst ` set u then map fst u else map fst u @ [k])"
  by (induction u k dflt rule: setdefault.induct) auto

lemma setdefault_values: "(k', v) \<in> set (setdefault u k []) \<Longrightarrow> (k', v) \<in> set u \<or> v = []"
  by (induction u k "[] :: string list" rule: setdefault.induct) (auto split: if_splits)

lemma seeded_keys:
  "distinct (map fst u @ ks) \<Longrightarrow>
   map fst (foldl (\<lambda>u key. setdefault u key []) u ks) = map fst u @ ks"
proof (induction ks arbitrary: u)
  case Nil
  then show ?case by simp
next
  case (Cons k ks)
  from Cons.prems have nk: "k \<notin> fst ` set u" by auto
  then have keys: "map fst (setdefault u k []) = map fst u @ [k]"
    by (simp add: setdefault_keys)
  with Cons.prems have "distinct (map fst (setdefault u k []) @ ks)" by auto
  from Cons.IH [OF this] keys show ?case by simp
qed

lemma seeded_values:
  "\<forall>(k, v) \<in> set u. v = [] \<Longrightarrow>
   \<forall>(k, v) \<in> set (foldl (\<lambda>u key. setdefault u key []) u ks). v = []"
proof (induction ks arbitrary: u)
  case Nil
  then show ?case by simp
next
  case (Cons k ks)
  have "\<forall>(k', v) \<in> set (setdefault u k []). v = []"
    using Cons.prems setdefault_values by fastforce
  from Cons.IH [OF this] show ?case by simp
qed

lemma seeded_lookup:
  assumes "distinct ks" "k \<in> set ks"
  shows "map_of (foldl (\<lambda>u key. setdefault u key []) [] ks) k = Some []"
proof -
  let ?u = "foldl (\<lambda>u key. setdefault u key []) [] ks"
  have keys: "map fst ?u = ks" using seeded_keys [of "[]" ks] assms(1) by simp
  with assms(2) have "k \<in> fst ` set ?u" by (metis list.set_map)
  then obtain v where v: "map_of ?u k = Some v"
    by (metis map_of_eq_None_iff not_None_eq)
  then have "(k, v) \<in> set ?u" by (rule map_of_SomeD)
  moreover have "\<forall>(k, v) \<in> set ?u. v = []" by (rule seeded_values) simp
  ultimately have "v = []" by auto
  with v show ?thesis by simp
qed

lemma append_use_keys:
  "k \<in> fst ` set u \<Longrightarrow> map fst (append_use u k x) = map fst u"
  by (induction u k x rule: append_use.induct) auto

lemma append_use_lookup:
  "k \<in> fst ` set u \<Longrightarrow>
   map_of (append_use u k x) k' =
     (if k' = k then map_option (\<lambda>v. v @ [x]) (map_of u k) else map_of u k')"
proof (induction u k x rule: append_use.induct)
  case (1 key x)
  then show ?case by simp
next
  case (2 k0 v m key x)
  show ?case
  proof (cases "k0 = key")
    case True
    then show ?thesis by simp
  next
    case False
    with "2.prems" have "key \<in> fst ` set m" by auto
    from "2.IH" [OF False this] False show ?thesis
      by (cases "k' = key") auto
  qed
qed

lemma append_use_total: "total_uses (append_use u k x) = Suc (total_uses u)"
  by (induction u k x rule: append_use.induct) (auto simp: total_uses_def)

section \<open>Resolution of a reference (C1)\<close>

text \<open>
  C1, as amended. For every reference the scanner takes the first key, in the iteration
  order of the known reusable paths, that matches the reference by any of the three
  tests (the key ends with the reference, the reference ends with the key, both have
  the same file name): the file is used by the content file when there is such a key,
  and the reference is missing otherwise. The file-name test is the last of the three
  tests on each key, not a second search after the suffix tests have failed on all keys.
\<close>

theorem C1_first_matching_key:
  "resolve keys ref = find (\<lambda>key. matches key ref) keys \<and>
   scan_ref keys content_file st ref =
     (case find (\<lambda>key. matches key ref) keys of
        Some key \<Rightarrow> st\<lparr>usages := append_use (usages st) key content_file\<rparr>
      | None \<Rightarrow> st\<lparr>missing := insert ref (missing st)\<rparr>)"
  by (simp add: scan_ref_def resolve_find)

text \<open>
  C1 as stated fails: with the keys \<^verbatim>\<open>/r/a/x.md\<close> and \<^verbatim>\<open>/r/b/x.md\<close> in this order,
  the reference \<^verbatim>\<open>r/b/x.md\<close> is resolved to the first key, which it matches by file
  name only, although the second key ends with the reference.
\<close>

theorem C1_filename_before_later_suffix:
  "resolve [''/r/a/x.md'', ''/r/b/x.md''] ''r/b/x.md'' = Some ''/r/a/x.md'' \<and>
   \<not> endswith ''/r/a/x.md'' ''r/b/x.md'' \<and>
   \<not> endswith ''r/b/x.md'' ''/r/a/x.md'' \<and>
   path_name ''r/b/x.md'' = path_name ''/r/a/x.md'' \<and>
   endswith ''/r/b/x.md'' ''r/b/x.md''"
  by (simp add: endswith_def path_name_def path_parts_def)

section \<open>The pruner and the candidates of the inliner\<close>

lemma delete_one_files:
  "files (fst (delete_one d k)) p = (if p = k \<and> k \<notin> no_unlink d then None else files d p)"
  by (auto simp: delete_one_def path_exists_def unlink_def)

lemma delete_one_no_unlink: "no_unlink (fst (delete_one d k)) = no_unlink d"
  by (auto simp: delete_one_def path_exists_def unlink_def)

lemma delete_loop_files:
  "files (fst (delete_loop d ks)) p =
     (if p \<in> set ks \<and> p \<notin> no_unlink d then None else files d p)"
proof (induction ks arbitrary: d)
  case Nil
  then show ?case by simp
next
  case (Cons k ks)
  have "files (fst (delete_loop d (k # ks))) p =
        files (fst (delete_loop (fst (delete_one d k)) ks)) p"
    by (simp add: case_prod_beta)
  also have "\<dots> = (if p \<in> set ks \<and> p \<notin> no_unlink d then None
                   else files (fst (delete_one d k)) p)"
    by (simp add: Cons.IH delete_one_no_unlink)
  finally show ?case by (auto simp: delete_one_files)
qed

lemma delete_loop_trace: "map fst (snd (delete_loop d ks)) = ks"
  by (induction ks arbitrary: d) (simp_all add: case_prod_beta)

lemma inline_candidate_frame:
  "p \<noteq> key \<Longrightarrow> p \<noteq> cf \<Longrightarrow> files (fst (inline_candidate d key cf)) p = files d p"
  by (auto simp: inline_candidate_def write_text_def unlink_def
      split: sum.splits prod.splits)

lemma inline_loop_trace:
  "\<forall>(k, locs) \<in> set cands. locs \<noteq> [] \<Longrightarrow>
   map fst (snd (inline_loop d cands)) = map fst cands"
proof (induction cands arbitrary: d)
  case Nil
  then show ?case by simp
next
  case (Cons c cands)
  obtain k locs where c: "c = (k, locs)" by (cases c)
  with Cons.prems obtain cf others where l: "locs = cf # others" by (cases locs) auto
  from Cons.prems have "\<forall>(k, locs) \<in> set cands. locs \<noteq> []" by simp
  from Cons.IH [OF this] c l show ?case by (simp add: case_prod_beta)
qed

lemma inline_loop_frame:
  "files (fst (inline_loop d cands)) p \<noteq> files d p \<Longrightarrow>
   \<exists>(k, locs) \<in> set cands. p = k \<or> (\<exists>cf others. locs = cf # others \<and> p = cf)"
proof (induction cands arbitrary: d)
  case Nil
  then show ?case by simp
next
  case (Cons c cands)
  obtain k locs where c: "c = (k, locs)" by (cases c)
  show ?case
  proof (cases locs)
    case Nil
    with Cons.prems c show ?thesis by simp
  next
    case (Cons cf others)
    let ?d1 = "fst (inline_candidate d k cf)"
    have loop: "fst (inline_loop d (c # cands)) = fst (inline_loop ?d1 cands)"
      using c Cons by (simp add: case_prod_beta)
    show ?thesis
    proof (cases "files (fst (inline_loop ?d1 cands)) p = files ?d1 p")
      case True
      with Cons.prems loop have "files ?d1 p \<noteq> files d p" by simp
      then have "p = k \<or> p = cf" using inline_candidate_frame by blast
      with c Cons show ?thesis by auto
    next
      case False
      from Cons.IH [OF this] show ?thesis by auto
    qed
  qed
qed

lemma single_use_lookup:
  "distinct (map fst um) \<Longrightarrow>
   (k, locs) \<in> set (filter (\<lambda>(k, v). length v = n) um) \<longleftrightarrow>
   map_of um k = Some locs \<and> length locs = n"
  by auto

text \<open>
  C2. For a usage map (a dict: no key twice), the pruner runs its loop on exactly the
  keys whose usage sequence is empty, in sorted order; afterwards each of those paths
  is gone unless the system refuses the unlink, and every other path, so every key
  with one or more uses, is as it was. The inliner runs its loop on exactly the keys
  whose usage sequence has one entry, in sorted order, and a path it changes is such a
  key or the content file of such a key.
\<close>

theorem C2_pruner_and_inliner_candidates:
  assumes "distinct (map fst um)"
  shows "map fst (snd (delete_unused d um)) =
           sort (map fst (filter (\<lambda>(k, v). length v = 0) um)) \<and>
         (\<forall>k. k \<in> fst ` set (snd (delete_unused d um)) \<longleftrightarrow> map_of um k = Some []) \<and>
         (\<forall>p. files (fst (delete_unused d um)) p =
                (if map_of um p = Some [] \<and> p \<notin> no_unlink d then None else files d p)) \<and>
         (\<forall>p v. map_of um p = Some v \<and> v \<noteq> [] \<longrightarrow>
                files (fst (delete_unused d um)) p = files d p) \<and>
         map fst (snd (inline_singles d um)) =
           map fst (sort (filter (\<lambda>(k, v). length v = 1) um)) \<and>
         (\<forall>k. k \<in> fst ` set (snd (inline_singles d um)) \<longleftrightarrow>
                (\<exists>cf. map_of um k = Some [cf])) \<and>
         (\<forall>p. files (fst (inline_singles d um)) p \<noteq> files d p \<longrightarrow>
                (\<exists>cf. map_of um p = Some [cf]) \<or> (\<exists>k. map_of um k = Some [p]))"
proof -
  let ?unused = "filter (\<lambda>(k, v). length v = 0) um"
  let ?cands = "filter (\<lambda>(k, v). length v = 1) um"
  have zero: "k \<in> set (map fst ?unused) \<longleftrightarrow> map_of um k = Some []" for k
    using assms by force
  have one: "(k, locs) \<in> set ?cands \<longleftrightarrow> (\<exists>cf. locs = [cf] \<and> map_of um k = Some [cf])"
    for k locs
    using assms by (auto simp: length_Suc_conv)
  have du: "delete_unused d um = delete_loop d (sort (map fst ?unused))"
    by (simp add: delete_unused_def Let_def)
  have is': "inline_singles d um = inline_loop d (sort ?cands)"
    by (simp add: inline_singles_def Let_def)
  have 1: "map fst (snd (delete_unused d um)) = sort (map fst ?unused)"
    unfolding du by (rule delete_loop_trace)
  have 2: "k \<in> fst ` set (snd (delete_unused d um)) \<longleftrightarrow> map_of um k = Some []" for k
  proof -
    have "k \<in> fst ` set (snd (delete_unused d um)) \<longleftrightarrow>
          k \<in> set (map fst (snd (delete_unused d um)))"
      by simp
    also have "\<dots> \<longleftrightarrow> k \<in> set (map fst ?unused)" unfolding 1 by simp
    finally show ?thesis unfolding zero .
  qed
  have 3: "files (fst (delete_unused d um)) p =
             (if map_of um p = Some [] \<and> p \<notin> no_unlink d then None else files d p)" for p
    unfolding du delete_loop_files using zero [of p] by simp
  have 4: "files (fst (delete_unused d um)) p = files d p"
    if "map_of um p = Some v \<and> v \<noteq> []" for p v
    using that 3 [of p] by auto
  have ne: "\<forall>(k, locs) \<in> set (sort ?cands). locs \<noteq> []"
    using one by auto
  have 5: "map fst (snd (inline_singles d um)) = map fst (sort ?cands)"
    unfolding is' using ne by (rule inline_loop_trace)
  have 6: "k \<in> fst ` set (snd (inline_singles d um)) \<longleftrightarrow> (\<exists>cf. map_of um k = Some [cf])"
    for k
  proof -
    have "k \<in> fst ` set (snd (inline_singles d um)) \<longleftrightarrow>
          k \<in> set (map fst (snd (inline_singles d um)))"
      by simp
    also have "\<dots> \<longleftrightarrow> k \<in> fst ` set ?cands" unfolding 5 by simp
    also have "\<dots> \<longleftrightarrow> (\<exists>locs. (k, locs) \<in> set ?cands)"
      by (rule iffI) (erule imageE, metis prod.collapse, erule exE, erule rev_image_eqI, simp)
    also have "\<dots> \<longleftrightarrow> (\<exists>cf. map_of um k = Some [cf])"
      unfolding one by blast
    finally show ?thesis .
  qed
  have 7: "(\<exists>cf. map_of um p = Some [cf]) \<or> (\<exists>k. map_of um k = Some [p])"
    if "files (fst (inline_singles d um)) p \<noteq> files d p" for p
  proof -
    from that have "files (fst (inline_loop d (sort ?cands))) p \<noteq> files d p"
      unfolding is' .
    from inline_loop_frame [OF this] obtain k locs where
      kl: "(k, locs) \<in> set ?cands" "p = k \<or> (\<exists>cf others. locs = cf # others \<and> p = cf)"
      by auto
    from kl(1) one obtain cf where cf: "locs = [cf]" "map_of um k = Some [cf]" by blast
    with kl(2) show ?thesis by auto
  qed
  show ?thesis
    by (intro conjI allI impI; (rule 1 2 3 5 6 | erule 4 7))
qed

theorem C2_mixed_map:
  "fst (delete_unused
     (disk [(''/r/used.md'', Text ''U''), (''/r/b.md'', Text ''B''), (''/r/a.md'', Text ''A''),
            (''/r/shared.md'', Text ''S'')])
     [(''/r/used.md'', [''/c/p.md'']), (''/r/b.md'', []), (''/r/a.md'', []),
      (''/r/shared.md'', [''/c/p.md'', ''/c/q.md''])]) =
   disk [(''/r/used.md'', Text ''U''), (''/r/shared.md'', Text ''S'')] \<and>
   snd (delete_unused
     (disk [(''/r/used.md'', Text ''U''), (''/r/b.md'', Text ''B''), (''/r/a.md'', Text ''A''),
            (''/r/shared.md'', Text ''S'')])
     [(''/r/used.md'', [''/c/p.md'']), (''/r/b.md'', []), (''/r/a.md'', []),
      (''/r/shared.md'', [''/c/p.md'', ''/c/q.md''])]) =
   [(''/r/a.md'', Deleted), (''/r/b.md'', Deleted)] \<and>
   map fst (snd (inline_singles
     (disk [(''/r/used.md'', Text ''U''), (''/r/b.md'', Text ''B''), (''/r/a.md'', Text ''A''),
            (''/r/shared.md'', Text ''S'')])
     [(''/r/used.md'', [''/c/p.md'']), (''/r/b.md'', []), (''/r/a.md'', []),
      (''/r/shared.md'', [''/c/p.md'', ''/c/q.md''])])) = [''/r/used.md'']"
  using C2_pruner_and_inliner_candidates
    [of "[(''/r/used.md'', [''/c/p.md'']), (''/r/b.md'', []), (''/r/a.md'', []),
          (''/r/shared.md'', [''/c/p.md'', ''/c/q.md''])]"
      "disk [(''/r/used.md'', Text ''U''), (''/r/b.md'', Text ''B''), (''/r/a.md'', Text ''A''),
            (''/r/shared.md'', Text ''S'')]"]
  by (simp add: delete_unused_def delete_one_def inline_singles_def eval_simps inline_simps
      fun_eq_iff)

section \<open>The text of a content file, cut at the directives\<close>

lemma group0_rest: "match_here s = Some (g, r) \<Longrightarrow> group0 s r @ r = s"
  using match_here_suffix [of s g r] by (auto simp: group0_def)

lemma tokens_text: "concat (map token_text (tokens t)) = t"
proof (induction t rule: tokens.induct)
  case 1
  then show ?case by simp
next
  case (2 c cs)
  show ?case
  proof (cases "match_here (c # cs)")
    case None
    with 2 show ?thesis by simp
  next
    case (Some a)
    obtain g rest where a: "a = (g, rest)" by (cases a)
    from 2 Some a have "concat (map token_text (tokens rest)) = rest" by simp
    with Some a group0_rest [of "c # cs" g rest] show ?thesis by simp
  qed
qed

lemma finditer_tokens:
  "finditer t = concat (map (\<lambda>tok. case tok of Lit c \<Rightarrow> [] | Directive m0 ref \<Rightarrow> [ref]) (tokens t))"
proof (induction t rule: tokens.induct)
  case 1
  then show ?case by simp
next
  case (2 c cs)
  show ?case
  proof (cases "match_here (c # cs)")
    case None
    with 2 show ?thesis by simp
  next
    case (Some a)
    obtain g rest where a: "a = (g, rest)" by (cases a)
    with 2 Some show ?thesis by simp
  qed
qed

lemma re_sub_replacer:
  "re_sub (replacer key reusable_text) replaced t =
     (concat (map (\<lambda>tok. case tok of
                      Lit c \<Rightarrow> [c]
                    | Directive m0 ref \<Rightarrow>
                        if matches key ref then rstrip_nl reusable_text else m0)
                (tokens t)),
      replaced \<or> (\<exists>ref \<in> set (finditer t). matches key ref))"
proof (induction t arbitrary: replaced rule: tokens.induct)
  case 1
  then show ?case by simp
next
  case (2 c cs)
  show ?case
  proof (cases "match_here (c # cs)")
    case None
    with "2.IH"(1) [OF None, of replaced] show ?thesis by simp
  next
    case (Some a)
    obtain g rest where a: "a = (g, rest)" by (cases a)
    note ih = "2.IH"(2) [OF Some a [symmetric]]
    show ?thesis
    proof (cases "matches key g")
      case True
      then have r: "replacer key reusable_text replaced (group0 (c # cs) rest, g) =
                 (rstrip_nl reusable_text, True)"
        by (simp add: replacer_def matches_def)
      from ih [of True] Some a r True show ?thesis by simp
    next
      case False
      then have r: "replacer key reusable_text replaced (group0 (c # cs) rest, g) =
                 (group0 (c # cs) rest, replaced)"
        by (simp add: replacer_def matches_def)
      from ih [of replaced] Some a r False show ?thesis by simp
    qed
  qed
qed

lemma rstrip_nl_decomp: "\<exists>n. s = rstrip_nl s @ replicate n (CHR 0x0A)"
proof -
  let ?P = "\<lambda>c. c = CHR 0x0A"
  have "rev s = takeWhile ?P (rev s) @ dropWhile ?P (rev s)" by simp
  then have "s = rev (dropWhile ?P (rev s)) @ rev (takeWhile ?P (rev s))"
    by (metis rev_append rev_rev_ident)
  moreover have "takeWhile ?P xs = replicate (length (takeWhile ?P xs)) (CHR 0x0A)" for xs
    by (induction xs) auto
  ultimately have "s = rstrip_nl s @ rev (replicate (length (takeWhile ?P (rev s))) (CHR 0x0A))"
    by (simp add: rstrip_nl_def)
  then show ?thesis by (metis rev_replicate)
qed

lemma rstrip_nl_last: "rstrip_nl s = [] \<or> last (rstrip_nl s) \<noteq> CHR 0x0A"
proof (cases "rstrip_nl s = []")
  case True
  then show ?thesis by simp
next
  case False
  then have ne: "dropWhile (\<lambda>c. c = CHR 0x0A) (rev s) \<noteq> []" by (simp add: rstrip_nl_def)
  then have "hd (dropWhile (\<lambda>c. c = CHR 0x0A) (rev s)) \<noteq> CHR 0x0A"
    using hd_dropWhile [of "\<lambda>c. c = CHR 0x0A" "rev s"] by simp
  with ne show ?thesis by (simp add: rstrip_nl_def last_rev)
qed

section \<open>Inlining a candidate\<close>

lemma read_text_exists: "read_text d p = Inr t \<Longrightarrow> path_exists d p"
  by (auto simp: read_text_def path_exists_def split: option.splits)

text \<open>
  C3. When a candidate is inlined, the content file is written with its text in which
  each directive that matches the key is replaced by the text of the reusable file
  without its trailing line feeds, every such directive and no other: the directives
  that do not match and the characters between directives stay as they are.
\<close>

theorem C3_matching_directives_replaced:
  assumes "read_text d key = Inr reusable_text" "read_text d content_file = Inr content_text"
    "\<exists>ref \<in> set (finditer content_text). matches key ref"
    "content_file \<notin> no_write d" "key \<noteq> content_file"
  shows "files (fst (inline_candidate d key content_file)) content_file =
           Some (Text (concat (map (\<lambda>tok. case tok of
                                       Lit c \<Rightarrow> [c]
                                     | Directive m0 ref \<Rightarrow>
                                         if matches key ref then rstrip_nl reusable_text
                                         else m0)
                                 (tokens content_text)))) \<and>
         content_text = concat (map token_text (tokens content_text)) \<and>
         (\<exists>n. reusable_text = rstrip_nl reusable_text @ replicate n (CHR 0x0A)) \<and>
         (rstrip_nl reusable_text = [] \<or> last (rstrip_nl reusable_text) \<noteq> CHR 0x0A)"
proof -
  let ?new = "concat (map (\<lambda>tok. case tok of
                             Lit c \<Rightarrow> [c]
                           | Directive m0 ref \<Rightarrow>
                               if matches key ref then rstrip_nl reusable_text else m0)
                       (tokens content_text))"
  have sub: "re_sub (replacer key reusable_text) False content_text = (?new, True)"
    using assms(3) by (simp add: re_sub_replacer)
  have ex: "path_exists d key" using assms(1) by (rule read_text_exists)
  have "files (fst (inline_candidate d key content_file)) content_file = Some (Text ?new)"
    using assms(1,2,4,5) ex sub
    by (simp add: inline_candidate_def write_text_def unlink_def split: sum.splits)
  with tokens_text [of content_text] rstrip_nl_decomp [of reusable_text]
    rstrip_nl_last [of reusable_text]
  show ?thesis by simp
qed

theorem C3_tip_inlined_twice_other_kept:
  "files (fst (inline_candidate
      (disk [(''/r/t.md'', Text ''Tip.\<newline>\<newline>''),
             (''/c/p.md'', Text (shortcode ''r/t.md'' @ '' B '' @ shortcode ''u.md'' @ shortcode ''t.md''))])
      ''/r/t.md'' ''/c/p.md'')) ''/c/p.md'' =
   Some (Text (''Tip. B '' @ shortcode ''u.md'' @ ''Tip.''))"
  using C3_matching_directives_replaced
    [of "disk [(''/r/t.md'', Text ''Tip.\<newline>\<newline>''),
               (''/c/p.md'', Text (shortcode ''r/t.md'' @ '' B '' @ shortcode ''u.md'' @ shortcode ''t.md''))]"
      "''/r/t.md''" "''Tip.\<newline>\<newline>''" "''/c/p.md''"
      "shortcode ''r/t.md'' @ '' B '' @ shortcode ''u.md'' @ shortcode ''t.md''"]
  by (simp add: eval_simps inline_simps)

text \<open>
  C4. When both files of a candidate can be read and no directive of the content text
  matches the key, the pass ends as a skip and leaves the file system as it was:
  nothing is written, nothing is deleted, and the loop goes on with the candidates
  that remain, from the same file system.
\<close>

theorem C4_no_matching_directive_skips:
  assumes "read_text d key = Inr reusable_text" "read_text d content_file = Inr content_text"
    "\<forall>ref \<in> set (finditer content_text). \<not> matches key ref"
  shows "inline_candidate d key content_file = (d, Skip_no_shortcode) \<and>
         inline_loop d ((key, content_file # others) # rest) =
           (fst (inline_loop d rest), (key, Skip_no_shortcode) # snd (inline_loop d rest))"
proof -
  have "snd (re_sub (replacer key reusable_text) False content_text) = False"
    using assms(3) by (simp add: re_sub_replacer)
  then obtain new where sub: "re_sub (replacer key reusable_text) False content_text = (new, False)"
    by (cases "re_sub (replacer key reusable_text) False content_text") simp
  have ex: "path_exists d key" using assms(1) by (rule read_text_exists)
  have c: "inline_candidate d key content_file = (d, Skip_no_shortcode)"
    using assms(1,2) ex sub by (simp add: inline_candidate_def)
  then show ?thesis by (simp add: case_prod_beta)
qed

theorem C4_stale_map_entry_skipped:
  "inline_loop
     (disk [(''/r/t.md'', Text ''Tip.''), (''/r/u.md'', Text ''U''),
            (''/c/p.md'', Text (shortcode ''u.md''))])
     [(''/r/t.md'', [''/c/p.md'']), (''/r/u.md'', [''/c/p.md''])] =
   (disk [(''/r/t.md'', Text ''Tip.''), (''/c/p.md'', Text ''U'')],
    [(''/r/t.md'', Skip_no_shortcode), (''/r/u.md'', Inlined)])"
  using C4_no_matching_directive_skips
    [of "disk [(''/r/t.md'', Text ''Tip.''), (''/r/u.md'', Text ''U''),
               (''/c/p.md'', Text (shortcode ''u.md''))]"
      "''/r/t.md''" "''Tip.''" "''/c/p.md''" "shortcode ''u.md''" "[]"
      "[(''/r/u.md'', [''/c/p.md''])]"]
  by (simp add: eval_simps inline_simps fun_eq_iff)

section \<open>The scan as a fold over the occurrences\<close>

lemma scan_ref_warnings_update:
  "scan_ref keys p (st\<lparr>warnings := w\<rparr>) r = (scan_ref keys p st r)\<lparr>warnings := w\<rparr>"
  by (simp add: scan_ref_def split: option.splits)

lemma scan_refs_warnings_update:
  "foldl (scan_ref keys p) (st\<lparr>warnings := w\<rparr>) rs =
   (foldl (scan_ref keys p) st rs)\<lparr>warnings := w\<rparr>"
  by (induction rs arbitrary: st) (simp_all add: scan_ref_warnings_update)

lemma scan_ref_warnings: "warnings (scan_ref keys p st r) = warnings st"
  by (simp add: scan_ref_def split: option.splits)

lemma scan_refs_warnings: "warnings (foldl (scan_ref keys p) st rs) = warnings st"
  by (induction rs arbitrary: st) (simp_all add: scan_ref_warnings)

lemma scan_ref_missing:
  "missing (scan_ref keys p st r) =
   missing st \<union> (if resolve keys r = None then {r} else {})"
  by (auto simp: scan_ref_def split: option.splits)

lemma scan_refs_missing:
  "missing (foldl (scan_ref keys p) st rs) =
   missing st \<union> {r \<in> set rs. resolve keys r = None}"
  by (induction rs arbitrary: st) (auto simp: scan_ref_missing split: if_splits)

lemma scan_ref_keys:
  assumes "set keys \<subseteq> fst ` set (usages st)"
  shows "map fst (usages (scan_ref keys p st r)) = map fst (usages st)"
proof (cases "resolve keys r")
  case None
  then show ?thesis by (simp add: scan_ref_def)
next
  case (Some k)
  with assms have "k \<in> fst ` set (usages st)" using resolve_in_keys by blast
  with Some show ?thesis by (simp add: scan_ref_def append_use_keys)
qed

lemma scan_ref_lookup:
  assumes "set keys \<subseteq> fst ` set (usages st)"
  shows "map_of (usages (scan_ref keys p st r)) k =
         map_option (\<lambda>v. v @ (if resolve keys r = Some k then [p] else []))
           (map_of (usages st) k)"
proof (cases "resolve keys r")
  case None
  then show ?thesis by (simp add: scan_ref_def option.map_ident)
next
  case (Some k')
  with assms have "k' \<in> fst ` set (usages st)" using resolve_in_keys by blast
  with Some show ?thesis
    by (cases "k = k'") (simp_all add: scan_ref_def append_use_lookup option.map_ident)
qed

lemma scan_ref_total:
  "total_uses (usages (scan_ref keys p st r)) =
   total_uses (usages st) + (if resolve keys r = None then 0 else 1)"
  by (auto simp: scan_ref_def append_use_total split: option.splits)

lemma scan_refs_keys:
  "set keys \<subseteq> fst ` set (usages st) \<Longrightarrow>
   map fst (usages (foldl (scan_ref keys p) st rs)) = map fst (usages st)"
proof (induction rs arbitrary: st)
  case Nil
  then show ?case by simp
next
  case (Cons r rs)
  have k: "map fst (usages (scan_ref keys p st r)) = map fst (usages st)"
    using Cons.prems by (rule scan_ref_keys)
  then have "set keys \<subseteq> fst ` set (usages (scan_ref keys p st r))"
    using Cons.prems by (metis list.set_map)
  from Cons.IH [OF this] k show ?case by simp
qed

lemma scan_refs_lookup:
  "set keys \<subseteq> fst ` set (usages st) \<Longrightarrow>
   map_of (usages (foldl (scan_ref keys p) st rs)) k =
   map_option (\<lambda>v. v @ map (\<lambda>r. p) (filter (\<lambda>r. resolve keys r = Some k) rs))
     (map_of (usages st) k)"
proof (induction rs arbitrary: st)
  case Nil
  then show ?case by (simp add: option.map_ident)
next
  case (Cons r rs)
  have "map fst (usages (scan_ref keys p st r)) = map fst (usages st)"
    using Cons.prems by (rule scan_ref_keys)
  then have "set keys \<subseteq> fst ` set (usages (scan_ref keys p st r))"
    using Cons.prems by (metis list.set_map)
  from Cons.IH [OF this] scan_ref_lookup [OF Cons.prems, of p r k] show ?case
    by (simp add: option.map_comp comp_def)
qed

lemma scan_refs_total:
  "total_uses (usages (foldl (scan_ref keys p) st rs)) =
   total_uses (usages st) + length (filter (\<lambda>r. resolve keys r \<noteq> None) rs)"
  by (induction rs arbitrary: st) (simp_all add: scan_ref_total)

lemma occurrences_Nil: "occurrences d [] = []"
  by (simp add: occurrences_def)

lemma occurrences_Cons: "occurrences d (p # cl) = occurrences d [p] @ occurrences d cl"
  by (simp add: occurrences_def)

lemma occurrences_append: "occurrences d (a @ b) = occurrences d a @ occurrences d b"
  by (simp add: occurrences_def)

lemma occurrences_unreadable: "read_text d p = Inl e \<Longrightarrow> occurrences d [p] = []"
  by (simp add: occurrences_def)

lemma occurrences_readable:
  "read_text d p = Inr t \<Longrightarrow> occurrences d [p] = map (Pair p) (finditer t)"
  by (simp add: occurrences_def)

lemma filter_pairs:
  "map fst (filter (\<lambda>(q, r). P r) (map (Pair p) rs)) = map (\<lambda>r. p) (filter P rs)"
  by (induction rs) auto

lemma pair_comp: "(\<lambda>(q, r). P r) \<circ> Pair p = P"
  by (rule ext) simp

lemma filter_pairs_length:
  "length (filter (\<lambda>(q, r). P r) (map (Pair p) rs)) = length (filter P rs)"
  by (induction rs) auto

lemma scan_file_keys:
  assumes "set keys \<subseteq> fst ` set (usages st)"
  shows "map fst (usages (scan_file d keys st p)) = map fst (usages st)"
  using assms by (cases "read_text d p") (simp_all add: scan_file_def scan_refs_keys)

lemma scan_file_lookup:
  assumes "set keys \<subseteq> fst ` set (usages st)"
  shows "map_of (usages (scan_file d keys st p)) k =
         map_option
           (\<lambda>v. v @ map fst (filter (\<lambda>(q, r). resolve keys r = Some k) (occurrences d [p])))
           (map_of (usages st) k)"
proof (cases "read_text d p")
  case (Inl e)
  then show ?thesis
    by (simp add: scan_file_def occurrences_unreadable option.map_ident)
next
  case (Inr t)
  then show ?thesis
    using scan_refs_lookup [OF assms, of p "finditer t" k]
    by (simp add: scan_file_def occurrences_readable filter_pairs)
qed

lemma scan_file_missing:
  "missing (scan_file d keys st p) =
   missing st \<union> {r. \<exists>q. (q, r) \<in> set (occurrences d [p]) \<and> resolve keys r = None}"
proof (cases "read_text d p")
  case (Inl e)
  then show ?thesis by (simp add: scan_file_def occurrences_unreadable)
next
  case (Inr t)
  then show ?thesis
    by (auto simp: scan_file_def occurrences_readable scan_refs_missing)
qed

lemma scan_file_total:
  "total_uses (usages (scan_file d keys st p)) =
   total_uses (usages st) +
   length (filter (\<lambda>(q, r). resolve keys r \<noteq> None) (occurrences d [p]))"
proof (cases "read_text d p")
  case (Inl e)
  then show ?thesis by (simp add: scan_file_def occurrences_unreadable)
next
  case (Inr t)
  then show ?thesis
    by (simp add: scan_file_def occurrences_readable scan_refs_total pair_comp)
qed

lemma scan_file_warnings:
  "warnings (scan_file d keys st p) =
   warnings st @ (if isl (read_text d p) then [p] else [])"
  by (cases "read_text d p") (simp_all add: scan_file_def scan_refs_warnings)

lemma scan_files_keys:
  "set keys \<subseteq> fst ` set (usages st) \<Longrightarrow>
   map fst (usages (foldl (scan_file d keys) st cl)) = map fst (usages st)"
proof (induction cl arbitrary: st)
  case Nil
  then show ?case by simp
next
  case (Cons p cl)
  have k: "map fst (usages (scan_file d keys st p)) = map fst (usages st)"
    using Cons.prems by (rule scan_file_keys)
  then have "set keys \<subseteq> fst ` set (usages (scan_file d keys st p))"
    using Cons.prems by (metis list.set_map)
  from Cons.IH [OF this] k show ?case by simp
qed

lemma scan_files_lookup:
  "set keys \<subseteq> fst ` set (usages st) \<Longrightarrow>
   map_of (usages (foldl (scan_file d keys) st cl)) k =
   map_option
     (\<lambda>v. v @ map fst (filter (\<lambda>(q, r). resolve keys r = Some k) (occurrences d cl)))
     (map_of (usages st) k)"
proof (induction cl arbitrary: st)
  case Nil
  then show ?case by (simp add: occurrences_Nil option.map_ident)
next
  case (Cons p cl)
  have "map fst (usages (scan_file d keys st p)) = map fst (usages st)"
    using Cons.prems by (rule scan_file_keys)
  then have "set keys \<subseteq> fst ` set (usages (scan_file d keys st p))"
    using Cons.prems by (metis list.set_map)
  from Cons.IH [OF this] scan_file_lookup [OF Cons.prems, of d p k] show ?case
    by (simp add: occurrences_Cons [of d p cl] option.map_comp comp_def)
qed

lemma scan_files_missing:
  "missing (foldl (scan_file d keys) st cl) =
   missing st \<union> {r. \<exists>q. (q, r) \<in> set (occurrences d cl) \<and> resolve keys r = None}"
proof (induction cl arbitrary: st)
  case Nil
  then show ?case by (simp add: occurrences_Nil)
next
  case (Cons p cl)
  show ?case
    unfolding foldl_Cons Cons.IH scan_file_missing occurrences_Cons [of d p cl]
    by auto
qed

lemma scan_files_total:
  "total_uses (usages (foldl (scan_file d keys) st cl)) =
   total_uses (usages st) +
   length (filter (\<lambda>(q, r). resolve keys r \<noteq> None) (occurrences d cl))"
proof (induction cl arbitrary: st)
  case Nil
  then show ?case by (simp add: occurrences_Nil)
next
  case (Cons p cl)
  show ?case
    unfolding foldl_Cons Cons.IH scan_file_total occurrences_Cons [of d p cl]
    by simp
qed

lemma scan_files_warnings:
  "warnings (foldl (scan_file d keys) st cl) =
   warnings st @ filter (\<lambda>p. isl (read_text d p)) cl"
  by (induction cl arbitrary: st) (simp_all add: scan_file_warnings)

text \<open>The scan, by its three results.\<close>

lemma empty_values_map:
  "\<forall>(k, v) \<in> set u. v = [] \<Longrightarrow> u = map (\<lambda>k. (k, [])) (map fst u)"
  by (induction u) auto

lemma seeded_map:
  "distinct ks \<Longrightarrow> foldl (\<lambda>u key. setdefault u key []) [] ks = map (\<lambda>k. (k, [])) ks"
proof -
  assume dk: "distinct ks"
  let ?u = "foldl (\<lambda>u key. setdefault u key []) [] ks"
  have keys: "map fst ?u = ks" using seeded_keys [of "[]" ks] dk by simp
  have vals: "\<forall>(k, v) \<in> set ?u. v = []" by (rule seeded_values) simp
  from empty_values_map [OF vals] keys show ?thesis by simp
qed

lemma find_usages_keys:
  "map fst (usages (find_usages d rl cl)) = reusable_files rl"
proof -
  let ?keys = "reusable_files rl"
  let ?seeded = "foldl (\<lambda>u key. setdefault u key []) [] ?keys"
  have s: "map fst ?seeded = ?keys"
    using seeded_keys [of "[]" ?keys] reusable_files_distinct by simp
  then have "set ?keys \<subseteq> fst ` set (usages \<lparr>usages = ?seeded, missing = {}, warnings = []\<rparr>)"
    by (metis list.set_map order_refl select_convs(1))
  from scan_files_keys [OF this] s show ?thesis
    by (simp add: find_usages_def Let_def)
qed

lemma find_usages_lookup:
  "map_of (usages (find_usages d rl cl)) k =
     (if k \<in> set rl
      then Some (map fst (filter (\<lambda>(q, r). resolve (reusable_files rl) r = Some k)
                            (occurrences d cl)))
      else None)"
proof -
  let ?keys = "reusable_files rl"
  let ?seeded = "foldl (\<lambda>u key. setdefault u key []) [] ?keys"
  have s: "map fst ?seeded = ?keys"
    using seeded_keys [of "[]" ?keys] reusable_files_distinct by simp
  then have inv: "set ?keys \<subseteq> fst ` set (usages \<lparr>usages = ?seeded, missing = {}, warnings = []\<rparr>)"
    by (metis list.set_map order_refl select_convs(1))
  have look: "map_of ?seeded k = (if k \<in> set rl then Some [] else None)"
  proof (cases "k \<in> set rl")
    case True
    then show ?thesis
      using seeded_lookup [OF reusable_files_distinct, of k rl]
      by (simp add: reusable_files_set)
  next
    case False
    then have "k \<notin> fst ` set ?seeded"
      using s by (metis list.set_map reusable_files_set)
    then show ?thesis using False by (simp add: map_of_eq_None_iff)
  qed
  from scan_files_lookup [OF inv, of d cl k] look show ?thesis
    by (simp add: find_usages_def Let_def)
qed

lemma find_usages_missing:
  "missing (find_usages d rl cl) =
   {r. \<exists>q. (q, r) \<in> set (occurrences d cl) \<and> resolve (reusable_files rl) r = None}"
  by (simp add: find_usages_def Let_def scan_files_missing)

lemma find_usages_total:
  "total_uses (usages (find_usages d rl cl)) =
   length (filter (\<lambda>(q, r). resolve (reusable_files rl) r \<noteq> None) (occurrences d cl))"
proof -
  have "total_uses (foldl (\<lambda>u key. setdefault u key []) [] (reusable_files rl)) = 0"
    by (simp add: seeded_map [OF reusable_files_distinct] total_uses_def comp_def)
  then show ?thesis
    by (simp add: find_usages_def Let_def scan_files_total)
qed

lemma find_usages_warnings:
  "warnings (find_usages d rl cl) = filter (\<lambda>p. isl (read_text d p)) cl"
  by (simp add: find_usages_def Let_def scan_files_warnings)

section \<open>Properties of the scan\<close>

lemma scan_file_warnings_update:
  "scan_file d keys (st\<lparr>warnings := w\<rparr>) q =
   (scan_file d keys st q)\<lparr>warnings := w @ (if isl (read_text d q) then [q] else [])\<rparr>"
  by (cases "read_text d q") (simp_all add: scan_file_def scan_refs_warnings_update)

lemma scan_files_warnings_update:
  "foldl (scan_file d keys) (st\<lparr>warnings := w\<rparr>) cl =
   (foldl (scan_file d keys) st cl)\<lparr>warnings := w @ filter (\<lambda>q. isl (read_text d q)) cl\<rparr>"
  by (induction cl arbitrary: st w) (simp_all add: scan_file_warnings_update)

lemma occurrences_fst: "(q, r) \<in> set (occurrences d cl) \<Longrightarrow> q \<in> set cl"
  by (auto simp: occurrences_def split: sum.splits)

lemma count_other_file:
  "p \<notin> set cl \<Longrightarrow> count_list (map fst (filter F (occurrences d cl))) p = 0"
  by (auto simp: count_list_0_iff dest: occurrences_fst)

lemma count_replicated: "count_list (map (\<lambda>r. p) xs) p = length xs"
  by (induction xs) auto

lemma count_one_file:
  assumes "distinct cl" "p \<in> set cl" "read_text d p = Inr t"
  shows "count_list (map fst (filter (\<lambda>(q, r). P r) (occurrences d cl))) p =
         length (filter P (finditer t))"
  using assms(1,2)
proof (induction cl)
  case Nil
  then show ?case by simp
next
  case (Cons q cl)
  show ?case
  proof (cases "q = p")
    case True
    with Cons.prems have "p \<notin> set cl" by simp
    then have "count_list (map fst (filter (\<lambda>(q, r). P r) (occurrences d cl))) p = 0"
      by (rule count_other_file)
    with True assms(3) show ?thesis
      by (simp add: occurrences_Cons [of d p cl] occurrences_readable filter_pairs
          count_replicated)
  next
    case False
    with Cons.prems have "p \<in> set cl" "distinct cl" by auto
    from Cons.IH [OF this(2,1)] have
      ih: "count_list (map fst (filter (\<lambda>(q, r). P r) (occurrences d cl))) p =
           length (filter P (finditer t))" .
    have "p \<notin> set [q]" using False by simp
    then have "count_list (map fst (filter (\<lambda>(q, r). P r) (occurrences d [q]))) p = 0"
      by (rule count_other_file)
    with ih show ?thesis
      by (simp add: occurrences_Cons [of d q cl])
  qed
qed

text \<open>
  C5. Every path of the reusable listing is a key of the usage map the scan returns;
  when no directive occurrence is resolved to it, its usage sequence is the empty list.
\<close>

theorem C5_every_reusable_file_is_a_key:
  assumes "r \<in> set reusable_listing"
  shows "r \<in> fst ` set (usages (find_usages d reusable_listing content_listing)) \<and>
         (\<exists>v. map_of (usages (find_usages d reusable_listing content_listing)) r = Some v) \<and>
         ((\<forall>(q, ref) \<in> set (occurrences d content_listing).
             resolve (reusable_files reusable_listing) ref \<noteq> Some r) \<longrightarrow>
          map_of (usages (find_usages d reusable_listing content_listing)) r = Some [])"
proof -
  let ?u = "usages (find_usages d reusable_listing content_listing)"
  have "fst ` set ?u = set reusable_listing"
    using find_usages_keys [of d reusable_listing content_listing]
    by (metis list.set_map reusable_files_set)
  with assms have 1: "r \<in> fst ` set ?u" by simp
  have 2: "map_of ?u r =
        Some (map fst (filter (\<lambda>(q, ref). resolve (reusable_files reusable_listing) ref = Some r)
                         (occurrences d content_listing)))"
    using assms by (simp add: find_usages_lookup)
  have 3: "map_of ?u r = Some []"
    if "\<forall>(q, ref) \<in> set (occurrences d content_listing).
          resolve (reusable_files reusable_listing) ref \<noteq> Some r"
  proof -
    from that have "filter (\<lambda>(q, ref). resolve (reusable_files reusable_listing) ref = Some r)
                      (occurrences d content_listing) = []"
      by (auto simp: filter_empty_conv)
    with 2 show ?thesis by simp
  qed
  from 1 2 3 show ?thesis by blast
qed

theorem C5_orphan_is_a_key:
  "map_of (usages (find_usages (disk [(''/c/page.md'', Text (''See '' @ shortcode ''r/a.md''))])
                     [''/r/a.md'', ''/r/orphan.md''] [''/c/page.md''])) ''/r/orphan.md'' = Some [] \<and>
   ''/r/orphan.md'' \<in> fst ` set (usages (find_usages
       (disk [(''/c/page.md'', Text (''See '' @ shortcode ''r/a.md''))])
       [''/r/a.md'', ''/r/orphan.md''] [''/c/page.md'']))"
  using C5_every_reusable_file_is_a_key
    [of "''/r/orphan.md''" "[''/r/a.md'', ''/r/orphan.md'']"
      "disk [(''/c/page.md'', Text (''See '' @ shortcode ''r/a.md''))]" "[''/c/page.md'']"]
  by (simp add: eval_simps)

text \<open>
  C6. The missing set the scan returns holds exactly the references, as written in the
  directive, of the occurrences that no key is resolved for; a reference that occurs
  several times is in the set once, so the set has as many elements as there are
  distinct unresolved references.
\<close>

theorem C6_missing_set_verbatim_once:
  "missing (find_usages d reusable_listing content_listing) =
     {ref. \<exists>q. (q, ref) \<in> set (occurrences d content_listing) \<and>
               resolve (reusable_files reusable_listing) ref = None} \<and>
   finite (missing (find_usages d reusable_listing content_listing)) \<and>
   card (missing (find_usages d reusable_listing content_listing)) =
     length (remdups (filter (\<lambda>ref. resolve (reusable_files reusable_listing) ref = None)
                        (map snd (occurrences d content_listing))))"
proof -
  let ?P = "\<lambda>ref. resolve (reusable_files reusable_listing) ref = None"
  let ?occs = "occurrences d content_listing"
  have m: "missing (find_usages d reusable_listing content_listing) =
           {ref. \<exists>q. (q, ref) \<in> set ?occs \<and> ?P ref}"
    by (rule find_usages_missing)
  have s: "{ref. \<exists>q. (q, ref) \<in> set ?occs \<and> ?P ref} = set (filter ?P (map snd ?occs))"
    by force
  have "finite (set (filter ?P (map snd ?occs)))" by (rule finite_set)
  moreover have "card (set (filter ?P (map snd ?occs))) =
                 length (remdups (filter ?P (map snd ?occs)))"
    by (rule card_set)
  ultimately show ?thesis unfolding m s by blast
qed

theorem C6_ghost_once:
  "missing (find_usages
      (disk [(''/c/p.md'', Text (shortcode ''r/ghost.md'' @ shortcode ''r/ghost.md'')),
             (''/c/q.md'', Text (shortcode ''r/ghost.md''))])
      [''/r/a.md''] [''/c/p.md'', ''/c/q.md'']) = {''r/ghost.md''} \<and>
   card (missing (find_usages
      (disk [(''/c/p.md'', Text (shortcode ''r/ghost.md'' @ shortcode ''r/ghost.md'')),
             (''/c/q.md'', Text (shortcode ''r/ghost.md''))])
      [''/r/a.md''] [''/c/p.md'', ''/c/q.md''])) = 1"
proof -
  let ?d = "disk [(''/c/p.md'', Text (shortcode ''r/ghost.md'' @ shortcode ''r/ghost.md'')),
                  (''/c/q.md'', Text (shortcode ''r/ghost.md''))]"
  have e: "missing (find_usages ?d [''/r/a.md''] [''/c/p.md'', ''/c/q.md'']) = {''r/ghost.md''}"
    by (simp add: eval_simps)
  from C6_missing_set_verbatim_once [of ?d "[''/r/a.md'']" "[''/c/p.md'', ''/c/q.md'']"]
  have "finite (missing (find_usages ?d [''/r/a.md''] [''/c/p.md'', ''/c/q.md'']))"
    by blast
  with e show ?thesis by simp
qed

text \<open>
  C7. The usage sequence of a key holds the path of a content file once for each
  directive occurrence in that file that is resolved to the key: two occurrences in one
  file give two entries.
\<close>

theorem C7_one_entry_per_occurrence:
  assumes "k \<in> set reusable_listing" "distinct content_listing"
    "p \<in> set content_listing" "read_text d p = Inr t"
  shows "\<exists>v. map_of (usages (find_usages d reusable_listing content_listing)) k = Some v \<and>
             count_list v p =
               length (filter (\<lambda>ref. resolve (reusable_files reusable_listing) ref = Some k)
                         (finditer t))"
  using assms
  by (simp add: find_usages_lookup
      count_one_file [where P = "\<lambda>ref. resolve (reusable_files reusable_listing) ref = Some k"])

theorem C7_two_occurrences_two_entries:
  "map_of (usages (find_usages
       (disk [(''/c/p.md'', Text (shortcode ''r/a.md'' @ '' and '' @ shortcode ''a.md''))])
       [''/r/a.md''] [''/c/p.md''])) ''/r/a.md'' = Some [''/c/p.md'', ''/c/p.md'']"
  using C7_one_entry_per_occurrence
    [of "''/r/a.md''" "[''/r/a.md'']" "[''/c/p.md'']" "''/c/p.md''"
      "disk [(''/c/p.md'', Text (shortcode ''r/a.md'' @ '' and '' @ shortcode ''a.md''))]"
      "shortcode ''r/a.md'' @ '' and '' @ shortcode ''a.md''"]
  by (simp add: eval_simps)

text \<open>
  C8. A content file whose text cannot be read (an I/O or an encoding error) is
  reported and passed over: the scan returns the usage map and the missing set it
  returns for the listing without that file, whatever comes before and after it.
\<close>

theorem C8_unreadable_file_is_skipped:
  assumes "read_text d p = Inl e"
  shows "usages (find_usages d reusable_listing (before @ p # after)) =
           usages (find_usages d reusable_listing (before @ after)) \<and>
         missing (find_usages d reusable_listing (before @ p # after)) =
           missing (find_usages d reusable_listing (before @ after)) \<and>
         p \<in> set (warnings (find_usages d reusable_listing (before @ p # after)))"
proof -
  let ?keys = "reusable_files reusable_listing"
  let ?f = "scan_file d ?keys"
  define st where "st = foldl ?f \<lparr>usages = foldl (\<lambda>u key. setdefault u key []) [] ?keys,
                                   missing = {}, warnings = []\<rparr> before"
  have skip: "?f st p = st\<lparr>warnings := warnings st @ [p]\<rparr>"
    using assms by (simp add: scan_file_def)
  have "foldl ?f (?f st p) after =
        (foldl ?f st after)\<lparr>warnings := (warnings st @ [p]) @
                                filter (\<lambda>q. isl (read_text d q)) after\<rparr>"
    unfolding skip by (rule scan_files_warnings_update)
  then have "usages (foldl ?f (?f st p) after) = usages (foldl ?f st after)"
    and "missing (foldl ?f (?f st p) after) = missing (foldl ?f st after)"
    by simp_all
  moreover have "p \<in> set (warnings (find_usages d reusable_listing (before @ p # after)))"
    using assms by (simp add: find_usages_warnings)
  ultimately show ?thesis
    by (simp add: find_usages_def Let_def st_def)
qed

theorem C8_scan_goes_on_after_unreadable_file:
  "usages (find_usages
      (disk [(''/c/bad.md'', Broken UnicodeDecodeError), (''/c/p.md'', Text (shortcode ''r/a.md''))])
      [''/r/a.md''] [''/c/bad.md'', ''/c/p.md'']) = [(''/r/a.md'', [''/c/p.md''])] \<and>
   missing (find_usages
      (disk [(''/c/bad.md'', Broken UnicodeDecodeError), (''/c/p.md'', Text (shortcode ''r/a.md''))])
      [''/r/a.md''] [''/c/bad.md'', ''/c/p.md'']) = {} \<and>
   ''/c/bad.md'' \<in> set (warnings (find_usages
      (disk [(''/c/bad.md'', Broken UnicodeDecodeError), (''/c/p.md'', Text (shortcode ''r/a.md''))])
      [''/r/a.md''] [''/c/bad.md'', ''/c/p.md'']))"
  using C8_unreadable_file_is_skipped
    [of "disk [(''/c/bad.md'', Broken UnicodeDecodeError),
               (''/c/p.md'', Text (shortcode ''r/a.md''))]"
      "''/c/bad.md''" UnicodeDecodeError "[''/r/a.md'']" "[]" "[''/c/p.md'']"]
  by (simp add: eval_simps)

text \<open>
  C9. Each directive occurrence of a readable content file does one of two things. When
  a key is resolved for its reference, it adds one entry to the usage sequences (to the
  sequence of that key) and leaves the missing set as it is; when none is, it leaves the
  usage map as it is and puts the reference into the missing set. Over a whole scan, the
  occurrences are the entries of the usage sequences and the unresolved occurrences
  together, and the missing set holds the references of the unresolved ones.
\<close>

theorem C9_usage_entry_or_missing:
  "((\<exists>key. resolve keys ref = Some key \<and>
       usages (scan_ref keys content_file st ref) = append_use (usages st) key content_file) \<and>
     total_uses (usages (scan_ref keys content_file st ref)) = Suc (total_uses (usages st)) \<and>
     missing (scan_ref keys content_file st ref) = missing st
    \<or>
     resolve keys ref = None \<and>
     usages (scan_ref keys content_file st ref) = usages st \<and>
     missing (scan_ref keys content_file st ref) = insert ref (missing st)) \<and>
   total_uses (usages (find_usages d reusable_listing content_listing)) +
     length (filter (\<lambda>(q, r). resolve (reusable_files reusable_listing) r = None)
               (occurrences d content_listing)) =
     length (occurrences d content_listing) \<and>
   missing (find_usages d reusable_listing content_listing) =
     snd ` set (filter (\<lambda>(q, r). resolve (reusable_files reusable_listing) r = None)
                  (occurrences d content_listing))"
proof -
  let ?P = "\<lambda>(q :: string, r). resolve (reusable_files reusable_listing) r = None"
  let ?occs = "occurrences d content_listing"
  have step: "(\<exists>key. resolve keys ref = Some key \<and>
       usages (scan_ref keys content_file st ref) = append_use (usages st) key content_file) \<and>
     total_uses (usages (scan_ref keys content_file st ref)) = Suc (total_uses (usages st)) \<and>
     missing (scan_ref keys content_file st ref) = missing st
    \<or>
     resolve keys ref = None \<and>
     usages (scan_ref keys content_file st ref) = usages st \<and>
     missing (scan_ref keys content_file st ref) = insert ref (missing st)"
    by (cases "resolve keys ref") (simp_all add: scan_ref_def append_use_total)
  have "length (filter ?P ?occs) + length (filter (\<lambda>x. \<not> ?P x) ?occs) = length ?occs"
    by (rule sum_length_filter_compl)
  moreover have "(\<lambda>x. \<not> ?P x) = (\<lambda>(q, r). resolve (reusable_files reusable_listing) r \<noteq> None)"
    by auto
  ultimately have total:
    "total_uses (usages (find_usages d reusable_listing content_listing)) +
       length (filter ?P ?occs) = length ?occs"
    by (simp add: find_usages_total)
  have miss: "missing (find_usages d reusable_listing content_listing) =
              snd ` set (filter ?P ?occs)"
    unfolding find_usages_missing by force
  from step total miss show ?thesis by blast
qed

theorem C9_one_used_one_missing:
  "usages (find_usages
      (disk [(''/c/p.md'', Text (shortcode ''r/a.md'' @ shortcode ''r/ghost.md''))])
      [''/r/a.md'', ''/r/b.md''] [''/c/p.md'']) =
     [(''/r/a.md'', [''/c/p.md'']), (''/r/b.md'', [])] \<and>
   missing (find_usages
      (disk [(''/c/p.md'', Text (shortcode ''r/a.md'' @ shortcode ''r/ghost.md''))])
      [''/r/a.md'', ''/r/b.md''] [''/c/p.md'']) = {''r/ghost.md''}"
  using C9_usage_entry_or_missing
    [of "[''/r/a.md'', ''/r/b.md'']" "''r/a.md''" "''/c/p.md''"
      "\<lparr>usages = [(''/r/a.md'', []), (''/r/b.md'', [])], missing = {}, warnings = []\<rparr>"
      "disk [(''/c/p.md'', Text (shortcode ''r/a.md'' @ shortcode ''r/ghost.md''))]"
      "[''/r/a.md'', ''/r/b.md'']" "[''/c/p.md'']"]
  by (simp add: eval_simps)

section \<open>What the pattern recognises\<close>

lemma quoted_nonempty: "quoted s = Some (g, r) \<Longrightarrow> g \<noteq> []"
  by (auto simp: quoted_def Let_def split: option.splits if_splits)

lemma match_here_nonempty: "match_here s = Some (g, r) \<Longrightarrow> g \<noteq> []"
  unfolding match_here_steps using quoted_nonempty by blast

lemma finditer_nonempty: "[] \<notin> set (finditer t)"
proof (induction t rule: finditer.induct)
  case 1
  then show ?case by simp
next
  case (2 c cs)
  show ?case
  proof (cases "match_here (c # cs)")
    case None
    with 2 show ?thesis by simp
  next
    case (Some a)
    obtain g rest where a: "a = (g, rest)" by (cases a)
    with Some have "g \<noteq> []" using match_here_nonempty by blast
    moreover from 2 Some a have "[] \<notin> set (finditer rest)" by simp
    ultimately show ?thesis using Some a by auto
  qed
qed

lemma space_chars:
  "\<not> is_space CHR ''r''" "\<not> is_space CHR ''f''" "\<not> is_space CHR ''=''"
  "\<not> is_space CHR ''\"''" "\<not> is_space CHR ''>''" "\<not> is_space CHR ''<''"
  by (simp_all add: is_space_def)

lemma skip_spaces:
  "\<forall>c \<in> set w. is_space c \<Longrightarrow> \<not> is_space x \<Longrightarrow> dropWhile is_space (w @ x # r) = x # r"
  by (induction w) auto

lemma spaces0_skip:
  "\<forall>c \<in> set w. is_space c \<Longrightarrow> \<not> is_space x \<Longrightarrow> spaces0 (w @ x # r) = Some (x # r)"
  by (simp add: spaces0_def skip_spaces)

lemma spaces1_skip:
  "\<forall>c \<in> set w. is_space c \<Longrightarrow> \<not> is_space x \<Longrightarrow>
   spaces1 (w @ x # r) = (if w = [] then None else Some (x # r))"
  by (cases w) (simp_all add: spaces1_def skip_spaces)

lemma match_here_empty_parameter:
  assumes "\<forall>c \<in> set (w1 @ w2 @ w3 @ w4). is_space c"
  shows "match_here (directive w1 w2 w3 w4 [] w5 @ rest) = None"
proof -
  from assms have w: "\<forall>c \<in> set w1. is_space c" "\<forall>c \<in> set w2. is_space c"
    "\<forall>c \<in> set w3. is_space c" "\<forall>c \<in> set w4. is_space c" by auto
  have q: "quoted (CHR ''\"'' # CHR ''\"'' # r) = None" for r
    by (simp add: quoted_def)
  show ?thesis
    unfolding match_here_def directive_def
    by (simp add: spaces0_skip [OF w(1)] spaces1_skip [OF w(2)] spaces0_skip [OF w(3)]
        spaces0_skip [OF w(4)] space_chars q)
qed

lemma finditer_no_opening: "CHR ''<'' \<notin> set t \<Longrightarrow> finditer t = []"
proof (induction t)
  case Nil
  then show ?case by simp
next
  case (Cons c cs)
  then have "lit ''{{<'' (c # cs) = None"
    by (cases cs; cases "tl cs") auto
  then have "match_here (c # cs) = None" by (simp add: match_here_def)
  with Cons show ?case by simp
qed

lemma finditer_empty_parameter:
  assumes "\<forall>c \<in> set (w1 @ w2 @ w3 @ w4 @ w5). is_space c"
  shows "finditer (directive w1 w2 w3 w4 [] w5) = []"
proof -
  define body where "body = w1 @ ''readfile'' @ w2 @ ''file'' @ w3 @ ''='' @ w4 @
     ''\"'' @ [] @ ''\"'' @ w5 @ ''>}}''"
  have d: "directive w1 w2 w3 w4 [] w5 = CHR ''{'' # CHR ''{'' # CHR ''<'' # body"
    by (simp add: directive_def body_def)
  from assms have "\<forall>c \<in> set (w1 @ w2 @ w3 @ w4 @ w5). c \<noteq> CHR ''<''"
    using space_chars(6) by blast
  then have "CHR ''<'' \<notin> set body" by (auto simp: body_def)
  then have b: "finditer body = []" by (rule finditer_no_opening)
  from assms have "\<forall>c \<in> set (w1 @ w2 @ w3 @ w4). is_space c" by auto
  from match_here_empty_parameter [OF this, of w5 "[]"]
  have m0: "match_here (CHR ''{'' # CHR ''{'' # CHR ''<'' # body) = None"
    by (simp add: d)
  have m1: "match_here (CHR ''{'' # CHR ''<'' # body) = None"
    by (simp add: match_here_def)
  have m2: "match_here (CHR ''<'' # body) = None"
    by (simp add: match_here_def)
  show ?thesis unfolding d by (simp add: m0 m1 m2 b)
qed

text \<open>
  C10. No reference the pattern recognises is empty. A directive whose quoted parameter
  is empty is not matched, whatever follows it, and a content file that consists of such
  a directive has no occurrence: the scan returns the usage map with every sequence
  empty and the empty missing set.
\<close>

theorem C10_empty_parameter_not_recognised:
  assumes "\<forall>c \<in> set (w1 @ w2 @ w3 @ w4 @ w5). is_space c"
    and "read_text d p = Inr (directive w1 w2 w3 w4 [] w5)"
  shows "[] \<notin> set (finditer text) \<and>
         match_here (directive w1 w2 w3 w4 [] w5 @ rest) = None \<and>
         finditer (directive w1 w2 w3 w4 [] w5) = [] \<and>
         usages (find_usages d reusable_listing [p]) =
           map (\<lambda>k. (k, [])) (reusable_files reusable_listing) \<and>
         missing (find_usages d reusable_listing [p]) = {}"
proof -
  from assms(1) have "\<forall>c \<in> set (w1 @ w2 @ w3 @ w4). is_space c" by auto
  then have m: "match_here (directive w1 w2 w3 w4 [] w5 @ rest) = None"
    by (rule match_here_empty_parameter)
  have f: "finditer (directive w1 w2 w3 w4 [] w5) = []"
    using assms(1) by (rule finditer_empty_parameter)
  have "usages (find_usages d reusable_listing [p]) =
          foldl (\<lambda>u key. setdefault u key []) [] (reusable_files reusable_listing)"
    and e: "missing (find_usages d reusable_listing [p]) = {}"
    using assms(2) f by (simp_all add: find_usages_def Let_def scan_file_def)
  then have "usages (find_usages d reusable_listing [p]) =
          map (\<lambda>k. (k, [])) (reusable_files reusable_listing)"
    by (simp add: seeded_map [OF reusable_files_distinct])
  with m f e finditer_nonempty show ?thesis by blast
qed

theorem C10_empty_shortcode_leaves_no_trace:
  "finditer (shortcode '''') = [] \<and>
   usages (find_usages (disk [(''/c/p.md'', Text (shortcode ''''))]) [''/r/a.md''] [''/c/p.md''])
     = [(''/r/a.md'', [])] \<and>
   missing (find_usages (disk [(''/c/p.md'', Text (shortcode ''''))]) [''/r/a.md''] [''/c/p.md''])
     = {}"
  using C10_empty_parameter_not_recognised
    [of "'' ''" "'' ''" "''''" "''''" "'' ''"
      "disk [(''/c/p.md'', Text (shortcode ''''))]" "''/c/p.md''" "''''" "''''" "[''/r/a.md'']"]
  by (simp add: eval_simps directive_def)

lemma takeWhile_to_quote:
  "CHR ''\"'' \<notin> set g \<Longrightarrow> takeWhile (\<lambda>c. c \<noteq> CHR ''\"'') (g @ CHR ''\"'' # r) = g"
  by (induction g) auto

lemma dropWhile_to_quote:
  "CHR ''\"'' \<notin> set g \<Longrightarrow>
   dropWhile (\<lambda>c. c \<noteq> CHR ''\"'') (g @ CHR ''\"'' # r) = CHR ''\"'' # r"
  by (induction g) auto

lemma quoted_value:
  "CHR ''\"'' \<notin> set g \<Longrightarrow> g \<noteq> [] \<Longrightarrow> quoted (CHR ''\"'' # g @ CHR ''\"'' # r) = Some (g, r)"
  by (simp add: quoted_def takeWhile_to_quote dropWhile_to_quote)

lemma match_here_directive:
  assumes "\<forall>c \<in> set (w1 @ w2 @ w3 @ w4 @ w5). is_space c" "w2 \<noteq> []"
    "ref \<noteq> []" "CHR ''\"'' \<notin> set ref"
  shows "match_here (directive w1 w2 w3 w4 ref w5 @ rest) = Some (ref, rest)"
proof -
  from assms(1) have w: "\<forall>c \<in> set w1. is_space c" "\<forall>c \<in> set w2. is_space c"
    "\<forall>c \<in> set w3. is_space c" "\<forall>c \<in> set w4. is_space c" "\<forall>c \<in> set w5. is_space c"
    by auto
  show ?thesis
    unfolding match_here_def directive_def
    using assms(2)
    by (simp add: spaces0_skip [OF w(1)] spaces1_skip [OF w(2)] spaces0_skip [OF w(3)]
        spaces0_skip [OF w(4)] spaces0_skip [OF w(5)] space_chars
        quoted_value [OF assms(4,3)])
qed

lemma finditer_directive:
  assumes "\<forall>c \<in> set (w1 @ w2 @ w3 @ w4 @ w5). is_space c" "w2 \<noteq> []"
    "ref \<noteq> []" "CHR ''\"'' \<notin> set ref"
  shows "finditer (directive w1 w2 w3 w4 ref w5) = [ref]"
proof -
  have "directive w1 w2 w3 w4 ref w5 \<noteq> []" by (simp add: directive_def)
  then obtain c cs where d: "directive w1 w2 w3 w4 ref w5 = c # cs" by (cases "directive w1 w2 w3 w4 ref w5") auto
  from match_here_directive [OF assms, of "[]"] d
  have "match_here (c # cs) = Some (ref, [])" by simp
  then have "finditer (c # cs) = [ref]" by simp
  with d show ?thesis by simp
qed

lemma lit_iff: "lit p s = Some r \<longleftrightarrow> s = p @ r"
  by (induction p s rule: lit.induct) auto

lemma spaces0_split:
  "spaces0 s = Some r \<Longrightarrow> \<exists>w. s = w @ r \<and> (\<forall>c \<in> set w. is_space c)"
proof -
  assume "spaces0 s = Some r"
  then have r: "r = dropWhile is_space s" by (simp add: spaces0_def)
  have "s = takeWhile is_space s @ r" unfolding r by simp
  moreover have "\<forall>c \<in> set (takeWhile is_space s). is_space c"
    by (auto dest: set_takeWhileD)
  ultimately show ?thesis by blast
qed

lemma spaces1_split:
  "spaces1 s = Some r \<Longrightarrow> \<exists>w. s = w @ r \<and> w \<noteq> [] \<and> (\<forall>c \<in> set w. is_space c)"
proof -
  assume a: "spaces1 s = Some r"
  then obtain c cs where s: "s = c # cs" "is_space c" "r = dropWhile is_space cs"
    by (auto simp: spaces1_def split: list.splits if_splits)
  have "s = (c # takeWhile is_space cs) @ r" unfolding s by simp
  moreover have "\<forall>x \<in> set (c # takeWhile is_space cs). is_space x"
    using s(2) by (auto dest: set_takeWhileD)
  ultimately show ?thesis by blast
qed

lemma quoted_split:
  "quoted s = Some (g, r) \<Longrightarrow>
   s = CHR ''\"'' # g @ CHR ''\"'' # r \<and> g \<noteq> [] \<and> CHR ''\"'' \<notin> set g"
proof -
  let ?P = "\<lambda>c. c \<noteq> CHR ''\"''"
  assume q: "quoted s = Some (g, r)"
  then obtain s1 where s1: "lit ''\"'' s = Some s1"
    by (auto simp: quoted_def split: option.splits)
  with q have g: "g = takeWhile ?P s1" "g \<noteq> []"
    and r: "lit ''\"'' (dropWhile ?P s1) = Some r"
    by (auto simp: quoted_def Let_def split: option.splits if_splits)
  from s1 have "s = CHR ''\"'' # s1" by (simp add: lit_iff)
  moreover from r have "dropWhile ?P s1 = CHR ''\"'' # r" by (simp add: lit_iff)
  then have "s1 = g @ CHR ''\"'' # r" unfolding g(1) by (metis takeWhile_dropWhile_id)
  moreover have "CHR ''\"'' \<notin> set g" unfolding g(1) by (auto dest: set_takeWhileD)
  ultimately show ?thesis using g(2) by simp
qed

text \<open>
  The match at the start of a text is the pattern read as a description of texts: the
  text begins with a directive, written with any white space and a value of one or more
  characters other than the quote. There is one way at most to read the start of a
  text so, which is why the order in which the search tries the ways does not matter.
\<close>

lemma match_here_iff:
  "match_here s = Some (ref, rest) \<longleftrightarrow>
     (\<exists>w1 w2 w3 w4 w5.
        (\<forall>c \<in> set (w1 @ w2 @ w3 @ w4 @ w5). is_space c) \<and> w2 \<noteq> [] \<and>
        ref \<noteq> [] \<and> CHR ''\"'' \<notin> set ref \<and>
        s = directive w1 w2 w3 w4 ref w5 @ rest)"
proof
  assume "match_here s = Some (ref, rest)"
  then obtain s1 s2 s3 s4 s5 s6 s7 s8 s9 s10 where
    steps: "lit ''{{<'' s = Some s1" "spaces0 s1 = Some s2" "lit ''readfile'' s2 = Some s3"
      "spaces1 s3 = Some s4" "lit ''file'' s4 = Some s5" "spaces0 s5 = Some s6"
      "lit ''='' s6 = Some s7" "spaces0 s7 = Some s8" "quoted s8 = Some (ref, s9)"
      "spaces0 s9 = Some s10" "lit ''>}}'' s10 = Some rest"
    unfolding match_here_steps by blast
  from spaces0_split [OF steps(2)] obtain w1 where
    w1: "s1 = w1 @ s2" "\<forall>c \<in> set w1. is_space c" by blast
  from spaces1_split [OF steps(4)] obtain w2 where
    w2: "s3 = w2 @ s4" "w2 \<noteq> []" "\<forall>c \<in> set w2. is_space c" by blast
  from spaces0_split [OF steps(6)] obtain w3 where
    w3: "s5 = w3 @ s6" "\<forall>c \<in> set w3. is_space c" by blast
  from spaces0_split [OF steps(8)] obtain w4 where
    w4: "s7 = w4 @ s8" "\<forall>c \<in> set w4. is_space c" by blast
  from spaces0_split [OF steps(10)] obtain w5 where
    w5: "s9 = w5 @ s10" "\<forall>c \<in> set w5. is_space c" by blast
  from quoted_split [OF steps(9)] have
    q: "s8 = CHR ''\"'' # ref @ CHR ''\"'' # s9" "ref \<noteq> []" "CHR ''\"'' \<notin> set ref"
    by simp_all
  have "s = directive w1 w2 w3 w4 ref w5 @ rest"
    using steps(1,3,5,7,11) unfolding lit_iff directive_def
    by (simp add: w1(1) w2(1) w3(1) w4(1) w5(1) q(1))
  moreover have "\<forall>c \<in> set (w1 @ w2 @ w3 @ w4 @ w5). is_space c"
    using w1(2) w2(3) w3(2) w4(2) w5(2) by auto
  ultimately show "\<exists>w1 w2 w3 w4 w5.
        (\<forall>c \<in> set (w1 @ w2 @ w3 @ w4 @ w5). is_space c) \<and> w2 \<noteq> [] \<and>
        ref \<noteq> [] \<and> CHR ''\"'' \<notin> set ref \<and>
        s = directive w1 w2 w3 w4 ref w5 @ rest"
    using w2(2) q(2,3) by blast
next
  assume "\<exists>w1 w2 w3 w4 w5.
        (\<forall>c \<in> set (w1 @ w2 @ w3 @ w4 @ w5). is_space c) \<and> w2 \<noteq> [] \<and>
        ref \<noteq> [] \<and> CHR ''\"'' \<notin> set ref \<and>
        s = directive w1 w2 w3 w4 ref w5 @ rest"
  then show "match_here s = Some (ref, rest)"
    using match_here_directive by blast
qed

end
